theory Spec2Isabelle
  imports Main "HOL-Library.Sublist"
begin

section \<open>Values, errors and the iterator guard\<close>

text \<open>
  The JavaScript values that reach the library. Numbers are kept as integers with a
  separate \<open>NaN\<close>; the library never computes with them, it only tests them for
  truthiness and counts with them. \<open>VArr\<close> is an array, the iterable of the model;
  \<open>VObj\<close> is a plain object (own string keys only, no \<open>Symbol.iterator\<close>).
\<close>

datatype jsval =
    VUndefined
  | VNull
  | VBool bool
  | VNum int
  | VNaN
  | VStr string
  | VArr "jsval list"
  | VObj "(string \<times> jsval) list"

text \<open>What \<open>if (result)\<close> and \<open>!pred(item)\<close> test: JavaScript truthiness.\<close>

fun truthy :: "jsval \<Rightarrow> bool" where
  "truthy VUndefined = False"
| "truthy VNull = False"
| "truthy (VBool b) = b"
| "truthy (VNum n) = (n \<noteq> 0)"
| "truthy VNaN = False"
| "truthy (VStr s) = (s \<noteq> [])"
| "truthy (VArr xs) = True"
| "truthy (VObj kvs) = True"

text \<open>
  An error object: the class it was constructed from, its \<open>code\<close> field (absent on a
  built-in error) and its \<open>message\<close>.
\<close>

record js_error =
  err_class :: string
  err_code :: "int option"
  err_message :: string

text \<open>
  \<open>class NotIterator extends TypeError { code = 1; message = 'Value is not an iterator' }\<close>,
  as \<open>new NotIterator()\<close> builds it.
\<close>

definition NotIterator :: js_error where
  "NotIterator =
     \<lparr>err_class = ''NotIterator'', err_code = Some 1,
      err_message = ''Value is not an iterator''\<rparr>"

definition TypeError :: "string \<Rightarrow> js_error" where
  "TypeError msg = \<lparr>err_class = ''TypeError'', err_code = None, err_message = msg\<rparr>"

text \<open>
  \<open>Symbol.iterator in possible\<close>. On an object the operator answers; on a primitive
  the engine throws a TypeError. The message is the one of V8, the engine under the
  test suite, whose opening words the source searches for; the rest of the engine's
  text, which the source does not inspect, is abbreviated.
\<close>

definition in_operator_message :: string where
  "in_operator_message =
     ''Cannot use 'in' operator to search for 'Symbol(Symbol.iterator)' in ...''"

fun symbol_iterator_in :: "jsval \<Rightarrow> string + bool" where
  "symbol_iterator_in (VArr xs) = Inr True"
| "symbol_iterator_in (VObj kvs) = Inr False"
| "symbol_iterator_in v = Inl in_operator_message"

text \<open>
  \<open>isIterator\<close>: the \<open>try\<close> returns the operator's answer; the \<open>catch\<close> turns the
  engine's complaint into \<open>false\<close> when \<open>e.message.indexOf(...) > -1\<close> and throws
  any other error again.
\<close>

definition isIterator :: "jsval \<Rightarrow> js_error + bool" where
  "isIterator possible =
     (case symbol_iterator_in possible of
        Inr b \<Rightarrow> Inr b
      | Inl msg \<Rightarrow>
          if sublist ''Cannot use 'in' operator to search for'' msg then Inr False
          else Inl (TypeError msg))"

definition ensureIterator :: "jsval \<Rightarrow> js_error + unit" where
  "ensureIterator v =
     (case isIterator v of
        Inl e \<Rightarrow> Inl e
      | Inr b \<Rightarrow> if \<not> b then Inl NotIterator else Inr ())"

text \<open>
  The iterator that \<open>for (const item of iter)\<close> obtains from a value, represented by
  the elements it has yet to produce; pulling takes the head. Inputs are finite
  sequences. The last equation is never used behind the guard
  (lemma \<open>ensureIterator_Inr\<close>).
\<close>

fun iterator_of :: "jsval \<Rightarrow> jsval list" where
  "iterator_of (VArr xs) = xs"
| "iterator_of v = []"

section \<open>Callbacks\<close>

text \<open>
  A callback may close over variables it updates (the counters of \<open>take\<close> and
  \<open>skip\<close>, a test's call counter), so it takes and returns the state of those
  variables. A callback of the source returns any value; the caller tests its truthiness.
\<close>

type_synonym 's fn1 = "jsval \<Rightarrow> 's \<Rightarrow> jsval \<times> 's"
type_synonym 's fn2 = "jsval \<Rightarrow> jsval \<Rightarrow> 's \<Rightarrow> jsval \<times> 's"

text \<open>The identity \<open>v => v\<close>, which closes over nothing.\<close>

definition ident :: "unit fn1" where
  "ident v u = (v, u)"

text \<open>
  The calls of a callback on each element in turn: the values returned, in call order,
  and the state left behind.
\<close>

fun call_each :: "'s fn1 \<Rightarrow> jsval list \<Rightarrow> 's \<Rightarrow> jsval list \<times> 's" where
  "call_each f [] s = ([], s)"
| "call_each f (x # xs) s =
     (case f x s of (y, s') \<Rightarrow>
        (case call_each f xs s' of (ys, s'') \<Rightarrow> (y # ys, s'')))"

fun call_pairs :: "'s fn2 \<Rightarrow> (jsval \<times> jsval) list \<Rightarrow> 's \<Rightarrow> jsval list \<times> 's" where
  "call_pairs f [] s = ([], s)"
| "call_pairs f ((a, b) # ps) s =
     (case f a b s of (y, s') \<Rightarrow>
        (case call_pairs f ps s' of (ys, s'') \<Rightarrow> (y # ys, s'')))"

section \<open>Generators\<close>

text \<open>
  A generator object is its body, as a function from the state the body is suspended
  in to the value yielded (\<open>None\<close> for \<open>done\<close>) and the state after, together with
  the current state. \<open>g.next()\<close> applies the body to the state.
\<close>

type_synonym 'g generator = "('g \<Rightarrow> jsval option \<times> 'g) \<times> 'g"

definition gen_next :: "'g generator \<Rightarrow> jsval option \<times> 'g generator" where
  "gen_next gen =
     (case gen of (body, g) \<Rightarrow> (case body g of (r, g') \<Rightarrow> (r, (body, g'))))"

text \<open>
  \<open>[...g]\<close>, which is what \<open>collect\<close> does with a generator: advance until done, which
  need not happen. The generator is returned as it is left.
\<close>

partial_function (option)
  spread :: "'g generator \<Rightarrow> (jsval list \<times> 'g generator) option" where
  "spread gen =
     (case gen_next gen of
        (None, gen') \<Rightarrow> Some ([], gen')
      | (Some v, gen') \<Rightarrow>
          Option.bind (spread gen') (\<lambda>(vs, gen''). Some (v # vs, gen'')))"

subsection \<open>map\<close>

type_synonym 's map_gen = "'s \<times> jsval list"

fun map_next :: "'s fn1 \<Rightarrow> 's map_gen \<Rightarrow> jsval option \<times> 's map_gen" where
  "map_next fn (s, []) = (None, (s, []))"
| "map_next fn (s, item # rest) = (case fn item s of (y, s') \<Rightarrow> (Some y, (s', rest)))"

definition map_iter :: "'s fn1 \<Rightarrow> 's \<Rightarrow> jsval \<Rightarrow> js_error + 's map_gen generator" where
  "map_iter fn s iter =
     (case ensureIterator iter of
        Inl e \<Rightarrow> Inl e
      | Inr _ \<Rightarrow> Inr (map_next fn, (s, iterator_of iter)))"

subsection \<open>filter and filter\_map\<close>

fun filter_next :: "'s fn1 \<Rightarrow> 's map_gen \<Rightarrow> jsval option \<times> 's map_gen" where
  "filter_next pred (s, []) = (None, (s, []))"
| "filter_next pred (s, item # rest) =
     (case pred item s of (passed, s') \<Rightarrow>
        if truthy passed then (Some item, (s', rest)) else filter_next pred (s', rest))"

definition filter_iter :: "'s fn1 \<Rightarrow> 's \<Rightarrow> jsval \<Rightarrow> js_error + 's map_gen generator" where
  "filter_iter pred s iterator =
     (case ensureIterator iterator of
        Inl e \<Rightarrow> Inl e
      | Inr _ \<Rightarrow> Inr (filter_next pred, (s, iterator_of iterator)))"

fun filter_map_next :: "'s fn1 \<Rightarrow> 's map_gen \<Rightarrow> jsval option \<times> 's map_gen" where
  "filter_map_next predMap (s, []) = (None, (s, []))"
| "filter_map_next predMap (s, item # rest) =
     (case predMap item s of (result, s') \<Rightarrow>
        if truthy result then (Some result, (s', rest))
        else filter_map_next predMap (s', rest))"

definition filter_map :: "'s fn1 \<Rightarrow> 's \<Rightarrow> jsval \<Rightarrow> js_error + 's map_gen generator" where
  "filter_map predMap s iterator =
     (case ensureIterator iterator of
        Inl e \<Rightarrow> Inl e
      | Inr _ \<Rightarrow> Inr (filter_map_next predMap, (s, iterator_of iterator)))"

subsection \<open>chain\<close>

text \<open>\<open>yield* iter1; yield* iter2\<close>: the state is what is left of each.\<close>

fun chain_next :: "jsval list \<times> jsval list \<Rightarrow> jsval option \<times> (jsval list \<times> jsval list)" where
  "chain_next (item # rest1, rest2) = (Some item, (rest1, rest2))"
| "chain_next ([], item # rest2) = (Some item, ([], rest2))"
| "chain_next ([], []) = (None, ([], []))"

definition chain_iter ::
  "jsval \<Rightarrow> jsval \<Rightarrow> js_error + (jsval list \<times> jsval list) generator" where
  "chain_iter iter1 iter2 =
     (case ensureIterator iter1 of
        Inl e \<Rightarrow> Inl e
      | Inr _ \<Rightarrow>
          (case ensureIterator iter2 of
             Inl e \<Rightarrow> Inl e
           | Inr _ \<Rightarrow> Inr (chain_next, (iterator_of iter1, iterator_of iter2))))"

subsection \<open>takeWhile and take\<close>

text \<open>
  After the \<open>break\<close> the generator has returned although its input has elements left,
  so the state records that it has finished.
\<close>

type_synonym 's takeWhile_gen = "bool \<times> 's \<times> jsval list"

fun takeWhile_next :: "'s fn1 \<Rightarrow> 's takeWhile_gen \<Rightarrow> jsval option \<times> 's takeWhile_gen" where
  "takeWhile_next pred (True, s, rest) = (None, (True, s, rest))"
| "takeWhile_next pred (False, s, []) = (None, (True, s, []))"
| "takeWhile_next pred (False, s, item # rest) =
     (case pred item s of (passed, s') \<Rightarrow>
        if truthy passed then (Some item, (False, s', rest))
        else (None, (True, s', rest)))"

definition takeWhile_iter :: "'s fn1 \<Rightarrow> 's \<Rightarrow> jsval \<Rightarrow> js_error + 's takeWhile_gen generator" where
  "takeWhile_iter pred s iter =
     (case ensureIterator iter of
        Inl e \<Rightarrow> Inl e
      | Inr _ \<Rightarrow> Inr (takeWhile_next pred, (False, s, iterator_of iter)))"

text \<open>
  \<open>take\<close>'s predicate ignores the item and counts its calls in the variable \<open>count\<close>
  of the enclosing call, which starts at 0.
\<close>

definition take_pred :: "int \<Rightarrow> int fn1" where
  "take_pred num item count = (VBool (count + 1 < num + 1), count + 1)"

definition take_iter :: "int \<Rightarrow> jsval \<Rightarrow> js_error + int takeWhile_gen generator" where
  "take_iter num iter = takeWhile_iter (take_pred num) 0 iter"

subsection \<open>collect and cycle\<close>

definition collect :: "jsval \<Rightarrow> js_error + jsval list" where
  "collect iter =
     (case ensureIterator iter of
        Inl e \<Rightarrow> Inl e
      | Inr _ \<Rightarrow> Inr (iterator_of iter))"

text \<open>\<open>item[i]\<close>: reading an array outside its bounds gives \<open>undefined\<close>.\<close>

definition element_at :: "jsval list \<Rightarrow> int \<Rightarrow> jsval" where
  "element_at item i = (if 0 \<le> i \<and> i < int (length item) then item ! nat i else VUndefined)"

text \<open>
  The generator of \<open>cycle\<close> holds the collected array \<open>item\<close> and the counter \<open>i\<close>
  as it stands at the head of the \<open>while (true)\<close> loop.
\<close>

definition cycle_next :: "jsval list \<times> int \<Rightarrow> jsval option \<times> (jsval list \<times> int)" where
  "cycle_next g =
     (case g of (item, i) \<Rightarrow>
        (let i' = (if i > int (length item) - 1 then 0 else i)
         in (Some (element_at item i'), (item, i' + 1))))"

definition cycle :: "jsval \<Rightarrow> js_error + (jsval list \<times> int) generator" where
  "cycle iter =
     (case collect iter of
        Inl e \<Rightarrow> Inl e
      | Inr item \<Rightarrow> Inr (cycle_next, (item, 0)))"

subsection \<open>enumerate\<close>

fun enumerate_next :: "int \<times> jsval list \<Rightarrow> jsval option \<times> (int \<times> jsval list)" where
  "enumerate_next (i, []) = (None, (i, []))"
| "enumerate_next (i, item # rest) = (Some (VArr [item, VNum i]), (i + 1, rest))"

definition enumerate_iter :: "jsval \<Rightarrow> js_error + (int \<times> jsval list) generator" where
  "enumerate_iter iter =
     (case ensureIterator iter of
        Inl e \<Rightarrow> Inl e
      | Inr _ \<Rightarrow> Inr (enumerate_next, (0, iterator_of iter)))"

subsection \<open>flatMap and flatten\<close>

text \<open>
  The state adds the elements of the \<open>yield* result\<close> in progress. The body calls
  \<open>isIterator\<close>, which can throw, so this generator's body has an error branch.
\<close>

type_synonym 's flatMap_gen = "'s \<times> jsval list \<times> jsval list"

type_synonym 'g throwing_generator = "('g \<Rightarrow> js_error + (jsval option \<times> 'g)) \<times> 'g"

fun flatMap_next ::
  "'s fn1 \<Rightarrow> 's flatMap_gen \<Rightarrow> js_error + (jsval option \<times> 's flatMap_gen)" where
  "flatMap_next fn (s, y # inner, rest) = Inr (Some y, (s, inner, rest))"
| "flatMap_next fn (s, [], []) = Inr (None, (s, [], []))"
| "flatMap_next fn (s, [], item # rest) =
     (case fn item s of (result, s') \<Rightarrow>
        (case isIterator result of
           Inl e \<Rightarrow> Inl e
         | Inr b \<Rightarrow>
             if b then flatMap_next fn (s', iterator_of result, rest)
             else Inr (Some result, (s', [], rest))))"

definition flatMap ::
  "'s fn1 \<Rightarrow> 's \<Rightarrow> jsval \<Rightarrow> js_error + 's flatMap_gen throwing_generator" where
  "flatMap fn s iter =
     (case ensureIterator iter of
        Inl e \<Rightarrow> Inl e
      | Inr _ \<Rightarrow> Inr (flatMap_next fn, (s, [], iterator_of iter)))"

definition flatten :: "jsval \<Rightarrow> js_error + unit flatMap_gen throwing_generator" where
  "flatten iter = flatMap ident () iter"

subsection \<open>tap and scan\<close>

fun tap_next :: "'s fn1 \<Rightarrow> 's map_gen \<Rightarrow> jsval option \<times> 's map_gen" where
  "tap_next fn (s, []) = (None, (s, []))"
| "tap_next fn (s, item # rest) = (case fn item s of (ignored, s') \<Rightarrow> (Some item, (s', rest)))"

definition tap :: "'s fn1 \<Rightarrow> 's \<Rightarrow> jsval \<Rightarrow> js_error + 's map_gen generator" where
  "tap fn s iter =
     (case ensureIterator iter of
        Inl e \<Rightarrow> Inl e
      | Inr _ \<Rightarrow> Inr (tap_next fn, (s, iterator_of iter)))"

type_synonym 's scan_gen = "jsval \<times> 's \<times> jsval list"

fun scan_next :: "'s fn2 \<Rightarrow> 's scan_gen \<Rightarrow> jsval option \<times> 's scan_gen" where
  "scan_next fn (state, s, []) = (None, (state, s, []))"
| "scan_next fn (state, s, item # rest) =
     (case fn state item s of (state', s') \<Rightarrow> (Some state', (state', s', rest)))"

definition scan :: "'s fn2 \<Rightarrow> jsval \<Rightarrow> 's \<Rightarrow> jsval \<Rightarrow> js_error + 's scan_gen generator" where
  "scan fn start s iter =
     (case ensureIterator iter of
        Inl e \<Rightarrow> Inl e
      | Inr _ \<Rightarrow> Inr (scan_next fn, (start, s, iterator_of iter)))"

subsection \<open>skipWhile and skip\<close>

text \<open>The state holds the local \<open>done\<close>, the callback's state and the input left.\<close>

type_synonym 's skipWhile_gen = "bool \<times> 's \<times> jsval list"

fun skipWhile_next :: "'s fn1 \<Rightarrow> 's skipWhile_gen \<Rightarrow> jsval option \<times> 's skipWhile_gen" where
  "skipWhile_next pred (done, s, []) = (None, (done, s, []))"
| "skipWhile_next pred (done, s, item # rest) =
     (case pred item s of (passed, s') \<Rightarrow>
        if \<not> done \<and> truthy passed then skipWhile_next pred (done, s', rest)
        else if \<not> truthy passed then (Some item, (True, s', rest))
        else (Some item, (done, s', rest)))"

definition skipWhile :: "'s fn1 \<Rightarrow> 's \<Rightarrow> jsval \<Rightarrow> js_error + 's skipWhile_gen generator" where
  "skipWhile pred s iter =
     (case ensureIterator iter of
        Inl e \<Rightarrow> Inl e
      | Inr _ \<Rightarrow> Inr (skipWhile_next pred, (False, s, iterator_of iter)))"

definition skip_pred :: "int \<Rightarrow> int fn1" where
  "skip_pred num item count = (VBool (count + 1 \<le> num), count + 1)"

definition skip :: "int \<Rightarrow> jsval \<Rightarrow> js_error + int skipWhile_gen generator" where
  "skip num iter = skipWhile (skip_pred num) 0 iter"

subsection \<open>zip\<close>

text \<open>
  The body of \<open>zip\<close>'s generator is suspended either before it has pulled the next
  item of \<open>iter1\<close> or at \<open>yield item\<close>, with the call \<open>ensuredIter.next()\<close> still
  to come. \<open>ensuredIter\<close> is the generator \<open>map(v => v, iter2)\<close>.
\<close>

datatype zip_pc = LoopHead | YieldedItem

type_synonym zip_gen = "zip_pc \<times> jsval list \<times> unit map_gen generator"

fun zip_loop_head ::
  "jsval list \<Rightarrow> unit map_gen generator \<Rightarrow> jsval option \<times> zip_gen" where
  "zip_loop_head [] ensuredIter = (None, (LoopHead, [], ensuredIter))"
| "zip_loop_head (item # rest) ensuredIter = (Some item, (YieldedItem, rest, ensuredIter))"

fun zip_next :: "zip_gen \<Rightarrow> jsval option \<times> zip_gen" where
  "zip_next (LoopHead, rest, ensuredIter) = zip_loop_head rest ensuredIter"
| "zip_next (YieldedItem, rest, ensuredIter) =
     (case gen_next ensuredIter of
        (Some value, ensuredIter') \<Rightarrow> (Some value, (LoopHead, rest, ensuredIter'))
      | (None, ensuredIter') \<Rightarrow> zip_loop_head rest ensuredIter')"

definition zip_iter :: "jsval \<Rightarrow> jsval \<Rightarrow> js_error + zip_gen generator" where
  "zip_iter iter1 iter2 =
     (case ensureIterator iter1 of
        Inl e \<Rightarrow> Inl e
      | Inr _ \<Rightarrow>
          (case ensureIterator iter2 of
             Inl e \<Rightarrow> Inl e
           | Inr _ \<Rightarrow>
               (case map_iter ident () iter2 of
                  Inl e \<Rightarrow> Inl e
                | Inr ensuredIter \<Rightarrow>
                    Inr (zip_next, (LoopHead, iterator_of iter1, ensuredIter)))))"

section \<open>Consumers\<close>

text \<open>
  A consumer runs its loop inside the call. With a callback it returns the callback's
  state next to its result, also when it throws: the calls made before an error stay
  made.
\<close>

fun all_loop :: "'s fn1 \<Rightarrow> jsval list \<Rightarrow> 's \<Rightarrow> bool \<times> 's" where
  "all_loop pred [] s = (True, s)"
| "all_loop pred (item # rest) s =
     (case pred item s of (passed, s') \<Rightarrow>
        if \<not> truthy passed then (False, s') else all_loop pred rest s')"

definition all :: "'s fn1 \<Rightarrow> jsval \<Rightarrow> 's \<Rightarrow> (js_error + bool) \<times> 's" where
  "all pred iterator s =
     (case ensureIterator iterator of
        Inl e \<Rightarrow> (Inl e, s)
      | Inr _ \<Rightarrow> (case all_loop pred (iterator_of iterator) s of (b, s') \<Rightarrow> (Inr b, s')))"

fun some_loop :: "'s fn1 \<Rightarrow> jsval list \<Rightarrow> 's \<Rightarrow> bool \<times> 's" where
  "some_loop pred [] s = (False, s)"
| "some_loop pred (item # rest) s =
     (case pred item s of (passed, s') \<Rightarrow>
        if truthy passed then (True, s') else some_loop pred rest s')"

definition some :: "'s fn1 \<Rightarrow> jsval \<Rightarrow> 's \<Rightarrow> (js_error + bool) \<times> 's" where
  "some pred iterator s =
     (case ensureIterator iterator of
        Inl e \<Rightarrow> (Inl e, s)
      | Inr _ \<Rightarrow> (case some_loop pred (iterator_of iterator) s of (b, s') \<Rightarrow> (Inr b, s')))"

fun count_loop :: "int \<Rightarrow> jsval list \<Rightarrow> int" where
  "count_loop i [] = i"
| "count_loop i (item # rest) = count_loop (i + 1) rest"

definition count :: "jsval \<Rightarrow> js_error + int" where
  "count iter =
     (case ensureIterator iter of
        Inl e \<Rightarrow> Inl e
      | Inr _ \<Rightarrow> Inr (count_loop 0 (iterator_of iter)))"

text \<open>A function that falls off its end returns \<open>undefined\<close>.\<close>

fun find_loop :: "'s fn1 \<Rightarrow> jsval list \<Rightarrow> 's \<Rightarrow> jsval \<times> 's" where
  "find_loop pred [] s = (VUndefined, s)"
| "find_loop pred (item # rest) s =
     (case pred item s of (passed, s') \<Rightarrow>
        if truthy passed then (item, s') else find_loop pred rest s')"

definition find_iter :: "'s fn1 \<Rightarrow> jsval \<Rightarrow> 's \<Rightarrow> (js_error + jsval) \<times> 's" where
  "find_iter pred iter s =
     (case ensureIterator iter of
        Inl e \<Rightarrow> (Inl e, s)
      | Inr _ \<Rightarrow> (case find_loop pred (iterator_of iter) s of (v, s') \<Rightarrow> (Inr v, s')))"

fun find_map_loop :: "'s fn1 \<Rightarrow> jsval list \<Rightarrow> 's \<Rightarrow> jsval \<times> 's" where
  "find_map_loop predMap [] s = (VUndefined, s)"
| "find_map_loop predMap (item # rest) s =
     (case predMap item s of (result, s') \<Rightarrow>
        if truthy result then (result, s') else find_map_loop predMap rest s')"

definition find_map :: "'s fn1 \<Rightarrow> jsval \<Rightarrow> 's \<Rightarrow> (js_error + jsval) \<times> 's" where
  "find_map predMap iter s =
     (case ensureIterator iter of
        Inl e \<Rightarrow> (Inl e, s)
      | Inr _ \<Rightarrow> (case find_map_loop predMap (iterator_of iter) s of (v, s') \<Rightarrow> (Inr v, s')))"

text \<open>\<open>i === index\<close> holds when \<open>index\<close> is the number \<open>i\<close> and for no other value.\<close>

fun nth_loop :: "jsval \<Rightarrow> int \<Rightarrow> jsval list \<Rightarrow> jsval" where
  "nth_loop index i [] = VUndefined"
| "nth_loop index i (item # rest) =
     (if VNum i = index then item else nth_loop index (i + 1) rest)"

definition nth_iter :: "jsval \<Rightarrow> jsval \<Rightarrow> js_error + jsval" where
  "nth_iter index iter =
     (case ensureIterator iter of
        Inl e \<Rightarrow> Inl e
      | Inr _ \<Rightarrow> Inr (nth_loop index 0 (iterator_of iter)))"

fun fold_loop :: "'s fn2 \<Rightarrow> jsval \<Rightarrow> jsval list \<Rightarrow> 's \<Rightarrow> jsval \<times> 's" where
  "fold_loop fn state [] s = (state, s)"
| "fold_loop fn state (item # rest) s =
     (case fn state item s of (state', s') \<Rightarrow> fold_loop fn state' rest s')"

definition fold_iter :: "'s fn2 \<Rightarrow> jsval \<Rightarrow> jsval \<Rightarrow> 's \<Rightarrow> (js_error + jsval) \<times> 's" where
  "fold_iter fn start iter s =
     (case ensureIterator iter of
        Inl e \<Rightarrow> (Inl e, s)
      | Inr _ \<Rightarrow> (case fold_loop fn start (iterator_of iter) s of (v, s') \<Rightarrow> (Inr v, s')))"

subsection \<open>eq\_by and eq\<close>

text \<open>
  The loop of \<open>eq_by\<close> runs \<open>for ... of\<close> over the generator \<open>iter1Iter\<close> and calls
  \<open>iter2Iter.next()\<close> itself. Both are generators of \<open>map(v => v, _)\<close>, so the loop
  is written over their states and advances them with \<open>map_next ident\<close>. A finished
  generator answers \<open>{value: undefined, done: true}\<close>. In \<open>!pred(item, value) || done\<close>
  the call of \<open>pred\<close> comes first. The two inputs are distinct sequences.
\<close>

function eq_by_loop :: "'s fn2 \<Rightarrow> unit map_gen \<Rightarrow> unit map_gen \<Rightarrow> 's \<Rightarrow> bool \<times> 's" where
  "eq_by_loop pred iter1Iter iter2Iter s =
     (case map_next ident iter1Iter of
        (None, iter1Iter') \<Rightarrow> (True, s)
      | (Some item, iter1Iter') \<Rightarrow>
          (case map_next ident iter2Iter of (r, iter2Iter') \<Rightarrow>
             (let value = (case r of None \<Rightarrow> VUndefined | Some v \<Rightarrow> v);
                  done = (r = None)
              in case pred item value s of (passed, s') \<Rightarrow>
                   if \<not> truthy passed \<or> done then (False, s')
                   else eq_by_loop pred iter1Iter' iter2Iter' s')))"
  by pat_completeness auto
termination
proof (relation "measure (\<lambda>(pred, iter1Iter, iter2Iter, s). length (snd iter1Iter))")
  show "wf (measure (\<lambda>(pred :: 's fn2, iter1Iter :: unit map_gen, iter2Iter :: unit map_gen, s :: 's).
              length (snd iter1Iter)))"
    by simp
next
  fix pred :: "'s fn2" and iter1Iter iter2Iter :: "unit map_gen" and s :: 's
    and x1 x2 item r iter2Iter' v d passed s'
  assume "(x1, x2) = map_next ident iter1Iter" and "x1 = Some item"
  then have "length (snd x2) < length (snd iter1Iter)"
    by (cases iter1Iter; cases "snd iter1Iter") (auto simp: ident_def)
  then show "((pred, x2, iter2Iter', s'), (pred, iter1Iter, iter2Iter, s))
      \<in> measure (\<lambda>(pred, iter1Iter, iter2Iter, s). length (snd iter1Iter))"
    by simp
qed

declare eq_by_loop.simps [simp del]

definition eq_by :: "'s fn2 \<Rightarrow> jsval \<Rightarrow> jsval \<Rightarrow> 's \<Rightarrow> (js_error + bool) \<times> 's" where
  "eq_by pred iter1 iter2 s =
     (case ensureIterator iter1 of
        Inl e \<Rightarrow> (Inl e, s)
      | Inr _ \<Rightarrow>
          (case ensureIterator iter2 of
             Inl e \<Rightarrow> (Inl e, s)
           | Inr _ \<Rightarrow>
               (case map_iter ident () iter1 of
                  Inl e \<Rightarrow> (Inl e, s)
                | Inr iter1Iter \<Rightarrow>
                    (case map_iter ident () iter2 of
                       Inl e \<Rightarrow> (Inl e, s)
                     | Inr iter2Iter \<Rightarrow>
                         (case eq_by_loop pred (snd iter1Iter) (snd iter2Iter) s of
                            (b, s') \<Rightarrow> (Inr b, s'))))))"

text \<open>
  \<open>eq = eq_by((a, b) => a === b)\<close>. The values of the model carry no object identity,
  so the engine's \<open>===\<close> is a parameter.
\<close>

definition eq :: "(jsval \<Rightarrow> jsval \<Rightarrow> bool) \<Rightarrow> jsval \<Rightarrow> jsval \<Rightarrow> js_error + bool" where
  "eq strict_equals iter1 iter2 =
     fst (eq_by (\<lambda>a b u. (VBool (strict_equals a b), u)) iter1 iter2 ())"

section \<open>curry\<close>

text \<open>
  \<open>fn\<close> is a function of its argument list and \<open>n\<close> is \<open>fn.length\<close>. A call of the
  wrapper either returns what \<open>fn\<close> returns or returns a function of further arguments.
\<close>

codatatype ('a, 'r) applied =
    Returned 'r
  | Wrapper "'a list \<Rightarrow> ('a, 'r) applied"

primcorec curry_js :: "nat \<Rightarrow> ('a list \<Rightarrow> 'r) \<Rightarrow> 'a list \<Rightarrow> ('a, 'r) applied" where
  "curry_js n fn args =
     (if length args \<ge> n then Returned (fn args)
      else Wrapper (\<lambda>other. curry_js n fn (args @ other)))"

text \<open>Calling what a call returned: only a wrapper can be called.\<close>

fun call :: "('a, 'r) applied \<Rightarrow> 'a list \<Rightarrow> ('a, 'r) applied option" where
  "call (Wrapper w) other = Some (w other)"
| "call (Returned r) other = None"

text \<open>A chain of calls \<open>f(...c1)(...c2)...\<close>, each on what the one before returned.\<close>

fun call_all :: "('a, 'r) applied \<Rightarrow> 'a list list \<Rightarrow> ('a, 'r) applied option" where
  "call_all w [] = Some w"
| "call_all w (c # cs) = Option.bind (call w c) (\<lambda>w'. call_all w' cs)"

section \<open>Observing callbacks\<close>

text \<open>
  A recording wrapper around a two-argument callback, as a test's mock function is:
  it behaves as the callback does and appends the arguments of every call to a list.
\<close>

definition logged :: "'s fn2 \<Rightarrow> ('s \<times> (jsval \<times> jsval) list) fn2" where
  "logged pred a b sl =
     (case sl of (s, calls) \<Rightarrow>
        (case pred a b s of (r, s') \<Rightarrow> (r, (s', calls @ [(a, b)]))))"

text \<open>A predicate that compares its arguments and counts its calls.\<close>

definition counting_equal :: "int fn2" where
  "counting_equal a b n = (VBool (a = b), n + 1)"

section \<open>Reference functions\<close>

text \<open>
  The flat interleave as the specification words it: each element of the first
  sequence, followed by the element of the second at the same position when there is
  one; what the second sequence has beyond the first is left out.
\<close>

fun interleave_spec :: "'a list \<Rightarrow> 'a list \<Rightarrow> 'a list" where
  "interleave_spec [] ys = []"
| "interleave_spec (x # xs) [] = x # interleave_spec xs []"
| "interleave_spec (x # xs) (y # ys) = x # y # interleave_spec xs ys"

section \<open>What a call may throw\<close>

text \<open>
  A call throws nothing but a \<open>NotIterator\<close>: if its outcome is an error, the error
  has the class, the code and the message of \<open>NotIterator\<close>.
\<close>

definition raises_only_NotIterator :: "js_error + 'a \<Rightarrow> bool" where
  "raises_only_NotIterator r =
     (case r of
        Inl e \<Rightarrow>
          err_class e = ''NotIterator'' \<and> err_code e = Some 1
          \<and> err_message e = ''Value is not an iterator''
      | Inr x \<Rightarrow> True)"

section \<open>Properties\<close>

subsection \<open>The guard\<close>

lemma isIterator_eq: "isIterator v = Inr (case v of VArr xs \<Rightarrow> True | _ \<Rightarrow> False)"
  by (cases v) (simp_all add: isIterator_def in_operator_message_def)

lemma ensureIterator_Inr: "ensureIterator v = Inr u \<Longrightarrow> v = VArr (iterator_of v)"
  by (cases v) (simp_all add: ensureIterator_def isIterator_eq)

lemma ensureIterator_VArr [simp]: "ensureIterator (VArr xs) = Inr ()"
  by (simp add: ensureIterator_def isIterator_eq)

lemma ensureIterator_not: "isIterator v = Inr False \<Longrightarrow> ensureIterator v = Inl NotIterator"
  by (simp add: ensureIterator_def)

subsection \<open>eq\_by\<close>

lemma eq_by_VArr:
  "eq_by pred (VArr xs) (VArr ys) s =
     (case eq_by_loop pred ((), xs) ((), ys) s of (b, s') \<Rightarrow> (Inr b, s'))"
  by (simp add: eq_by_def map_iter_def)

lemma eq_by_loop_Nil: "eq_by_loop pred (u, []) iter2Iter s = (True, s)"
  by (subst eq_by_loop.simps) simp

lemma eq_by_loop_Cons_Nil:
  "eq_by_loop pred (u, x # xs) (u', []) s = (False, snd (pred x VUndefined s))"
  by (subst eq_by_loop.simps) (simp add: ident_def split: prod.splits)

lemma eq_by_loop_Cons_Cons:
  "eq_by_loop pred (u, x # xs) (u', y # ys) s =
     (if truthy (fst (pred x y s)) then eq_by_loop pred (u, xs) (u', ys) (snd (pred x y s))
      else (False, snd (pred x y s)))"
  by (subst eq_by_loop.simps) (simp add: ident_def split: prod.splits)

lemma eq_by_loop_result:
  "fst (eq_by_loop pred ((), xs) ((), ys) s) =
     (length xs \<le> length ys \<and> list_all truthy (fst (call_pairs pred (zip xs ys) s)))"
proof (induction xs arbitrary: ys s)
  case Nil
  show ?case by (simp add: eq_by_loop_Nil)
next
  case (Cons x xs)
  show ?case
  proof (cases ys)
    case Nil
    then show ?thesis by (simp add: eq_by_loop_Cons_Nil)
  next
    case (Cons y ys')
    then show ?thesis
      by (simp add: eq_by_loop_Cons_Cons Cons.IH split: prod.splits)
  qed
qed

lemma eq_by_loop_prefix:
  "length ps = length qs \<Longrightarrow> eq_by_loop pred ((), ps) ((), qs) s = (True, s1) \<Longrightarrow>
     eq_by_loop pred ((), ps @ xs) ((), qs @ ys) s = eq_by_loop pred ((), xs) ((), ys) s1"
proof (induction ps qs arbitrary: s rule: list_induct2)
  case Nil
  then show ?case by (simp add: eq_by_loop_Nil)
next
  case (Cons p ps q qs)
  then show ?case
    by (simp add: eq_by_loop_Cons_Cons split: if_splits)
qed

lemma eq_by_loop_all_truthy:
  "length ps = length qs \<Longrightarrow> list_all truthy (fst (call_pairs pred (zip ps qs) s)) \<Longrightarrow>
     eq_by_loop pred ((), ps) ((), qs) s = (True, snd (call_pairs pred (zip ps qs) s))"
proof (induction ps qs arbitrary: s rule: list_induct2)
  case Nil
  then show ?case by (simp add: eq_by_loop_Nil)
next
  case (Cons p ps q qs)
  then show ?case
    by (simp add: eq_by_loop_Cons_Cons split: prod.splits)
qed

lemma call_pairs_logged:
  "call_pairs (logged pred) ps (s, calls) =
     (fst (call_pairs pred ps s), (snd (call_pairs pred ps s), calls @ ps))"
proof (induction ps arbitrary: s calls)
  case Nil
  show ?case by simp
next
  case (Cons p ps)
  obtain a b where p: "p = (a, b)" by (cases p)
  have step: "logged pred a b (s, calls) =
      (fst (pred a b s), (snd (pred a b s), calls @ [(a, b)]))"
    by (simp add: logged_def case_prod_beta)
  show ?case
    by (simp add: p step Cons.IH case_prod_beta)
qed

text \<open>
  C1. \<open>eq_by\<close> answers true exactly when the first sequence is no longer than the
  second and the predicate held on every pair, so elements the second sequence has
  beyond the first are not looked at. When the predicate has held on the pairs of a
  common prefix, \<open>eq_by\<close> answers true if the first sequence ends there, whatever
  the second still holds; it answers false at once if the first sequence has a further
  element and the second has none, and at once if the predicate fails on the next pair:
  the state of the predicate's variables is the one left by that call, whatever follows
  in either sequence. \<open>eq_by((a, b) => true, [1], [2])\<close> is true and
  \<open>eq_by(() => false, [1], [1])\<close> is false.
\<close>

theorem eq_by_contract:
  fixes pred :: "'s fn2"
  shows
  "fst (eq_by pred (VArr xs) (VArr ys) s) =
     Inr (length xs \<le> length ys \<and> list_all truthy (fst (call_pairs pred (zip xs ys) s)))
   \<and> (length ps = length qs \<and> list_all truthy (fst (call_pairs pred (zip ps qs) s)) \<longrightarrow>
        (let s1 = snd (call_pairs pred (zip ps qs) s) in
           eq_by pred (VArr ps) (VArr (qs @ extra)) s = (Inr True, s1)
         \<and> eq_by pred (VArr (ps @ x # rest1)) (VArr qs) s = (Inr False, snd (pred x VUndefined s1))
         \<and> (\<not> truthy (fst (pred x y s1)) \<longrightarrow>
              eq_by pred (VArr (ps @ x # rest1)) (VArr (qs @ y # rest2)) s
                = (Inr False, snd (pred x y s1)))))
   \<and> eq_by (\<lambda>a b u. (VBool True, u)) (VArr [VNum 1]) (VArr [VNum 2]) () = (Inr True, ())
   \<and> eq_by (\<lambda>a b u. (VBool False, u)) (VArr [VNum 1]) (VArr [VNum 1]) () = (Inr False, ())"
proof -
  have result: "fst (eq_by pred (VArr xs) (VArr ys) s) =
     Inr (length xs \<le> length ys \<and> list_all truthy (fst (call_pairs pred (zip xs ys) s)))"
    using eq_by_loop_result [of pred xs ys s]
    by (simp add: eq_by_VArr case_prod_beta)
  have early: "eq_by pred (VArr ps) (VArr (qs @ extra)) s = (Inr True, s1)
         \<and> eq_by pred (VArr (ps @ x # rest1)) (VArr qs) s = (Inr False, snd (pred x VUndefined s1))
         \<and> (\<not> truthy (fst (pred x y s1)) \<longrightarrow>
              eq_by pred (VArr (ps @ x # rest1)) (VArr (qs @ y # rest2)) s
                = (Inr False, snd (pred x y s1)))"
    if len: "length ps = length qs"
      and ok: "list_all truthy (fst (call_pairs pred (zip ps qs) s))"
      and s1: "s1 = snd (call_pairs pred (zip ps qs) s)"
    for s1
  proof -
    have run: "eq_by_loop pred ((), ps) ((), qs) s = (True, s1)"
      using eq_by_loop_all_truthy [OF len ok] s1 by simp
    have a: "eq_by_loop pred ((), ps) ((), qs @ extra) s = (True, s1)"
      using eq_by_loop_prefix [OF len run, of "[]" extra] by (simp add: eq_by_loop_Nil)
    have b: "eq_by_loop pred ((), ps @ x # rest1) ((), qs) s = (False, snd (pred x VUndefined s1))"
      using eq_by_loop_prefix [OF len run, of "x # rest1" "[]"] by (simp add: eq_by_loop_Cons_Nil)
    have c: "eq_by_loop pred ((), ps @ x # rest1) ((), qs @ y # rest2) s = (False, snd (pred x y s1))"
      if "\<not> truthy (fst (pred x y s1))"
      using eq_by_loop_prefix [OF len run, of "x # rest1" "y # rest2"] that
      by (simp add: eq_by_loop_Cons_Cons)
    show ?thesis using a b c by (simp add: eq_by_VArr)
  qed
  have ex1: "eq_by (\<lambda>a b u. (VBool True, u)) (VArr [VNum 1]) (VArr [VNum 2]) () = (Inr True, ())"
    by (simp add: eq_by_VArr eq_by_loop_Cons_Cons eq_by_loop_Nil)
  have ex2: "eq_by (\<lambda>a b u. (VBool False, u)) (VArr [VNum 1]) (VArr [VNum 1]) () = (Inr False, ())"
    by (simp add: eq_by_VArr eq_by_loop_Cons_Cons eq_by_loop_Nil)
  show ?thesis using result early ex1 ex2 by (simp add: Let_def)
qed

theorem eq_by_contract_witness:
  "eq_by counting_equal (VArr [VNum 1]) (VArr [VNum 1, VNum 9]) 0 = (Inr True, 1)
   \<and> eq_by counting_equal (VArr [VNum 1, VNum 2, VNum 3]) (VArr [VNum 1]) 0 = (Inr False, 2)
   \<and> eq_by counting_equal (VArr [VNum 1, VNum 2, VNum 3]) (VArr [VNum 1, VNum 5, VNum 3]) 0
        = (Inr False, 2)"
  using eq_by_contract [of counting_equal "[]" "[]" 0 "[VNum 1]" "[VNum 1]" "[VNum 9]" "VNum 2"
      "[VNum 3]" "VNum 5" "[VNum 3]"]
  by (simp add: counting_equal_def)

text \<open>
  C10. When the second sequence is strictly shorter and the predicate has held on every
  pair up to its end, \<open>eq_by\<close> still calls the predicate with the next element of the
  first sequence and \<open>undefined\<close>, and then answers false: the recorded calls are the
  pairs followed by that call, and the predicate's variables are as that call left them.
\<close>

theorem eq_by_calls_pred_when_exhausted:
  assumes "length ps = length qs"
    and "list_all truthy (fst (call_pairs pred (zip ps qs) s))"
  shows "eq_by (logged pred) (VArr (ps @ x # rest)) (VArr qs) (s, []) =
           (Inr False,
            (snd (pred x VUndefined (snd (call_pairs pred (zip ps qs) s))),
             zip ps qs @ [(x, VUndefined)]))"
proof -
  have ok: "list_all truthy (fst (call_pairs (logged pred) (zip ps qs) (s, [])))"
    using assms(2) by (simp add: call_pairs_logged)
  have run: "eq_by_loop (logged pred) ((), ps) ((), qs) (s, []) =
      (True, (snd (call_pairs pred (zip ps qs) s), zip ps qs))"
    using eq_by_loop_all_truthy [OF assms(1) ok] by (simp add: call_pairs_logged)
  show ?thesis
    using eq_by_loop_prefix [OF assms(1) run, of "x # rest" "[]"]
    by (simp add: eq_by_VArr eq_by_loop_Cons_Nil logged_def split: prod.splits)
qed

theorem eq_by_calls_pred_when_exhausted_witness:
  "eq_by (logged counting_equal) (VArr [VNum 1, VNum 2, VNum 3]) (VArr [VNum 1]) (0, []) =
     (Inr False, (2, [(VNum 1, VNum 1), (VNum 2, VUndefined)]))"
  using eq_by_calls_pred_when_exhausted [of "[VNum 1]" "[VNum 1]" counting_equal 0 "VNum 2" "[VNum 3]"]
  by (simp add: counting_equal_def)

subsection \<open>Collecting a generator\<close>

lemma spread_done: "body g = (None, g') \<Longrightarrow> spread (body, g) = Some ([], (body, g'))"
  by (subst spread.simps) (simp add: gen_next_def)

lemma spread_yield:
  "body g = (Some v, g') \<Longrightarrow> spread (body, g') = Some (vs, gen) \<Longrightarrow>
     spread (body, g) = Some (v # vs, gen)"
  by (subst spread.simps) (simp add: gen_next_def)

lemma spread_same_step: "body g = body h \<Longrightarrow> spread (body, g) = spread (body, h)"
  by (subst spread.simps, subst (2) spread.simps) (simp add: gen_next_def)

lemma call_each_pure: "call_each (\<lambda>x u. (f x, u)) xs s = (map f xs, s)"
  by (induction xs) simp_all

lemma call_each_length: "length (fst (call_each f xs s)) = length xs"
  by (induction xs arbitrary: s) (simp_all add: case_prod_beta)

lemma call_each_append:
  "call_each f (xs @ ys) s =
     (fst (call_each f xs s) @ fst (call_each f ys (snd (call_each f xs s))),
      snd (call_each f ys (snd (call_each f xs s))))"
  by (induction xs arbitrary: s) (simp_all add: case_prod_beta)

lemma spread_filter_map:
  "spread (filter_map_next predMap, (s, xs)) =
     Some (filter truthy (fst (call_each predMap xs s)),
           (filter_map_next predMap, (snd (call_each predMap xs s), [])))"
proof (induction xs arbitrary: s)
  case Nil
  show ?case by (simp add: spread_done)
next
  case (Cons x xs)
  obtain result s' where call: "predMap x s = (result, s')" by (cases "predMap x s")
  show ?case
  proof (cases "truthy result")
    case True
    have "filter_map_next predMap (s, x # xs) = (Some result, (s', xs))"
      using call True by simp
    from spread_yield [where body = "filter_map_next predMap", OF this Cons.IH] show ?thesis
      using call True by (simp add: case_prod_beta)
  next
    case False
    have "filter_map_next predMap (s, x # xs) = filter_map_next predMap (s', xs)"
      using call False by simp
    from spread_same_step [where body = "filter_map_next predMap", OF this] show ?thesis
      using call False by (simp add: Cons.IH case_prod_beta)
  qed
qed

lemma spread_skipWhile_done:
  "spread (skipWhile_next pred, (True, s, xs)) =
     Some (xs, (skipWhile_next pred, (True, snd (call_each pred xs s), [])))"
proof (induction xs arbitrary: s)
  case Nil
  show ?case by (simp add: spread_done)
next
  case (Cons x xs)
  obtain passed s' where call: "pred x s = (passed, s')" by (cases "pred x s")
  have "skipWhile_next pred (True, s, x # xs) = (Some x, (True, s', xs))"
    using call by simp
  from spread_yield [where body = "skipWhile_next pred", OF this Cons.IH] show ?case
    using call by (simp add: case_prod_beta)
qed

lemma spread_skipWhile:
  "spread (skipWhile_next pred, (False, s, xs)) =
     Some (map fst (dropWhile (\<lambda>(x, passed). truthy passed) (zip xs (fst (call_each pred xs s)))),
           (skipWhile_next pred,
            (\<not> list_all truthy (fst (call_each pred xs s)), snd (call_each pred xs s), [])))"
proof (induction xs arbitrary: s)
  case Nil
  show ?case by (simp add: spread_done)
next
  case (Cons x xs)
  obtain passed s' where call: "pred x s = (passed, s')" by (cases "pred x s")
  show ?case
  proof (cases "truthy passed")
    case True
    have "skipWhile_next pred (False, s, x # xs) = skipWhile_next pred (False, s', xs)"
      using call True by simp
    from spread_same_step [where body = "skipWhile_next pred", OF this] show ?thesis
      using call True by (simp add: Cons.IH case_prod_beta)
  next
    case False
    have step: "skipWhile_next pred (False, s, x # xs) = (Some x, (True, s', xs))"
      using call False by simp
    from spread_yield [where body = "skipWhile_next pred", OF step spread_skipWhile_done]
    show ?thesis
      using call False by (simp add: case_prod_beta call_each_length)
  qed
qed

lemma spread_take:
  "spread (takeWhile_next (take_pred n), (False, c, xs)) =
     Some (take (nat (n - c)) xs,
           (takeWhile_next (take_pred n),
            (True, c + int (min (nat (n - c) + 1) (length xs)), drop (nat (n - c) + 1) xs)))"
proof (induction xs arbitrary: c)
  case Nil
  have "takeWhile_next (take_pred n) (False, c, []) = (None, (True, c, []))"
    by simp
  from spread_done [where body = "takeWhile_next (take_pred n)", OF this] show ?case by simp
next
  case (Cons x xs)
  show ?case
  proof (cases "c < n")
    case True
    have step: "takeWhile_next (take_pred n) (False, c, x # xs) = (Some x, (False, c + 1, xs))"
      using True by (simp add: take_pred_def)
    have k: "nat (n - c) = Suc (nat (n - (c + 1)))"
      using True by simp
    from spread_yield [where body = "takeWhile_next (take_pred n)", OF step Cons.IH]
    show ?thesis
      by (simp add: k)
  next
    case False
    have step: "takeWhile_next (take_pred n) (False, c, x # xs) = (None, (True, c + 1, xs))"
      using False by (simp add: take_pred_def)
    from spread_done [where body = "takeWhile_next (take_pred n)", OF step] show ?thesis
      using False by simp
  qed
qed

lemma gen_next_ident_Nil:
  "gen_next (map_next ident, ((), [])) = (None, (map_next ident, ((), [])))"
  by (simp add: gen_next_def)

lemma gen_next_ident_Cons:
  "gen_next (map_next ident, ((), y # ys)) = (Some y, (map_next ident, ((), ys)))"
  by (simp add: gen_next_def ident_def)

lemma spread_zip:
  "spread (zip_next, (LoopHead, xs, (map_next ident, ((), ys)))) =
     Some (interleave_spec xs ys,
           (zip_next, (LoopHead, [], (map_next ident, ((), drop (length xs) ys)))))"
proof (induction xs arbitrary: ys)
  case Nil
  show ?case by (simp add: spread_done)
next
  case (Cons x xs)
  have first: "zip_next (LoopHead, x # xs, (map_next ident, ((), ys))) =
      (Some x, (YieldedItem, xs, (map_next ident, ((), ys))))"
    by simp
  show ?case
  proof (cases ys)
    case Nil
    have "zip_next (YieldedItem, xs, (map_next ident, ((), []))) =
        zip_next (LoopHead, xs, (map_next ident, ((), [])))"
      by (simp add: gen_next_ident_Nil)
    from spread_same_step [where body = zip_next, OF this]
    have "spread (zip_next, (YieldedItem, xs, (map_next ident, ((), [])))) =
        Some (interleave_spec xs [], (zip_next, (LoopHead, [], (map_next ident, ((), [])))))"
      by (simp add: Cons.IH)
    from spread_yield [where body = zip_next, OF first [unfolded Nil] this] show ?thesis
      using Nil by simp
  next
    case (Cons y ys')
    have second: "zip_next (YieldedItem, xs, (map_next ident, ((), y # ys'))) =
        (Some y, (LoopHead, xs, (map_next ident, ((), ys'))))"
      by (simp add: gen_next_ident_Cons)
    from spread_yield [where body = zip_next, OF first [unfolded Cons]
        spread_yield [where body = zip_next, OF second Cons.IH]]
    show ?thesis
      using Cons by simp
  qed
qed

lemma interleave_spec_closed:
  "interleave_spec xs ys = concat (map (\<lambda>(a, b). [a, b]) (zip xs ys)) @ drop (length ys) xs"
  by (induction xs ys rule: interleave_spec.induct) simp_all

subsection \<open>zip, take, skipWhile and filter\_map\<close>

text \<open>
  C2. \<open>zip\<close> is a flat interleave. Collecting \<open>zip(seq1, seq2)\<close> gives each element
  of \<open>seq1\<close> followed by the element of \<open>seq2\<close> at the same position when there is
  one: the pairs of the common positions flattened, then what \<open>seq1\<close> has left. An
  advance at the loop head pulls from \<open>seq1\<close> and yields the item; the advance after
  it pulls from \<open>seq2\<close> and yields that element if there is one, and otherwise goes on
  with \<open>seq1\<close>. When \<open>seq1\<close> is exhausted, \<open>seq2\<close> has been pulled once per element
  of \<open>seq1\<close> and keeps the rest. Collecting \<open>zip([1,2],[3,4])\<close> gives \<open>[1,3,2,4]\<close>.
\<close>

theorem zip_flat_interleave:
  "zip_iter (VArr xs) (VArr ys) = Inr (zip_next, (LoopHead, xs, (map_next ident, ((), ys))))
   \<and> spread (zip_next, (LoopHead, xs, (map_next ident, ((), ys)))) =
       Some (interleave_spec xs ys,
             (zip_next, (LoopHead, [], (map_next ident, ((), drop (length xs) ys)))))
   \<and> interleave_spec xs ys =
       concat (map (\<lambda>(a, b). [a, b]) (zip xs ys)) @ drop (length ys) xs
   \<and> gen_next (zip_next, (LoopHead, a # xs, (map_next ident, ((), ys)))) =
       (Some a, (zip_next, (YieldedItem, xs, (map_next ident, ((), ys)))))
   \<and> gen_next (zip_next, (YieldedItem, xs, (map_next ident, ((), b # ys)))) =
       (Some b, (zip_next, (LoopHead, xs, (map_next ident, ((), ys)))))
   \<and> gen_next (zip_next, (YieldedItem, a # xs, (map_next ident, ((), [])))) =
       (Some a, (zip_next, (YieldedItem, xs, (map_next ident, ((), [])))))
   \<and> gen_next (zip_next, (LoopHead, [], (map_next ident, ((), ys)))) =
       (None, (zip_next, (LoopHead, [], (map_next ident, ((), ys)))))
   \<and> map_option fst
         (spread (zip_next, (LoopHead, [VNum 1, VNum 2], (map_next ident, ((), [VNum 3, VNum 4])))))
       = Some [VNum 1, VNum 3, VNum 2, VNum 4]"
proof -
  have "zip_iter (VArr xs) (VArr ys) = Inr (zip_next, (LoopHead, xs, (map_next ident, ((), ys))))"
    by (simp add: zip_iter_def map_iter_def)
  moreover have "map_option fst
         (spread (zip_next, (LoopHead, [VNum 1, VNum 2], (map_next ident, ((), [VNum 3, VNum 4])))))
       = Some [VNum 1, VNum 3, VNum 2, VNum 4]"
    by (simp add: spread_zip)
  moreover have
    "gen_next (zip_next, (LoopHead, a # xs, (map_next ident, ((), ys)))) =
       (Some a, (zip_next, (YieldedItem, xs, (map_next ident, ((), ys)))))"
    "gen_next (zip_next, (YieldedItem, xs, (map_next ident, ((), b # ys)))) =
       (Some b, (zip_next, (LoopHead, xs, (map_next ident, ((), ys)))))"
    "gen_next (zip_next, (YieldedItem, a # xs, (map_next ident, ((), [])))) =
       (Some a, (zip_next, (YieldedItem, xs, (map_next ident, ((), [])))))"
    "gen_next (zip_next, (LoopHead, [], (map_next ident, ((), ys)))) =
       (None, (zip_next, (LoopHead, [], (map_next ident, ((), ys)))))"
    by (simp_all add: gen_next_def ident_def)
  ultimately show ?thesis
    using spread_zip [of xs ys] interleave_spec_closed [of xs ys] by blast
qed

text \<open>
  C6. For \<open>n \<ge> 0\<close>, collecting \<open>take(n, s)\<close> over a finite sequence gives the first
  \<open>n\<close> elements of \<open>s\<close>, so \<open>min(n, length(s))\<close> of them: nothing when \<open>n\<close> is 0 and
  all of \<open>s\<close> when \<open>n\<close> is at least its length.
\<close>

theorem take_length:
  assumes "0 \<le> n"
  shows "take_iter n (VArr xs) = Inr (takeWhile_next (take_pred n), (False, 0, xs))
   \<and> map_option fst (spread (takeWhile_next (take_pred n), (False, 0, xs))) =
       Some (take (nat n) xs)
   \<and> int (length (take (nat n) xs)) = min n (int (length xs))
   \<and> (n = 0 \<longrightarrow>
        map_option fst (spread (takeWhile_next (take_pred n), (False, 0, xs))) = Some [])
   \<and> (int (length xs) \<le> n \<longrightarrow>
        map_option fst (spread (takeWhile_next (take_pred n), (False, 0, xs))) = Some xs)"
proof -
  have a: "take_iter n (VArr xs) = Inr (takeWhile_next (take_pred n), (False, 0, xs))"
    by (simp add: take_iter_def takeWhile_iter_def)
  have b: "int (length (take (nat n) xs)) = min n (int (length xs))"
    using assms by (auto simp: min_def)
  have c: "map_option fst (spread (takeWhile_next (take_pred n), (False, 0, xs))) =
       Some (take (nat n) xs)"
    using spread_take [of n 0 xs] by simp
  have d: "n = 0 \<longrightarrow>
      map_option fst (spread (takeWhile_next (take_pred n), (False, 0, xs))) = Some []"
    unfolding c by simp
  have e: "int (length xs) \<le> n \<longrightarrow>
      map_option fst (spread (takeWhile_next (take_pred n), (False, 0, xs))) = Some xs"
    unfolding c by simp
  show ?thesis
    using a b c d e by blast
qed

theorem take_length_witness:
  "(0::int) \<le> 2
   \<and> take_iter 2 (VArr [VNum 1, VNum 2, VNum 3]) =
       Inr (takeWhile_next (take_pred 2), (False, 0, [VNum 1, VNum 2, VNum 3]))
   \<and> map_option fst (spread (takeWhile_next (take_pred 2), (False, 0, [VNum 1, VNum 2, VNum 3]))) =
       Some [VNum 1, VNum 2]"
  using take_length [of 2 "[VNum 1, VNum 2, VNum 3]"]
  by (simp add: numeral_2_eq_2)

text \<open>
  C7. Collecting \<open>skipWhile(pred, s)\<close> drops the leading elements on which the calls of
  \<open>pred\<close>, made in order on every element, answered truthy, and keeps the first element
  on which a call answered falsy and every element after it, whatever \<open>pred\<close> answers
  on those. With a predicate that is true on its first two calls and false afterwards,
  \<open>[1,2,3]\<close> collects to \<open>[3]\<close>.
\<close>

theorem skipWhile_contract:
  "skipWhile pred s (VArr xs) = Inr (skipWhile_next pred, (False, s, xs))
   \<and> spread (skipWhile_next pred, (False, s, xs)) =
       Some (map fst (dropWhile (\<lambda>(x, passed). truthy passed)
                        (zip xs (fst (call_each pred xs s)))),
             (skipWhile_next pred,
              (\<not> list_all truthy (fst (call_each pred xs s)), snd (call_each pred xs s), [])))
   \<and> (list_all truthy (fst (call_each pred ps s))
        \<and> \<not> truthy (fst (pred x (snd (call_each pred ps s)))) \<longrightarrow>
        map_option fst (spread (skipWhile_next pred, (False, s, ps @ x # rest))) =
          Some (x # rest))
   \<and> map_option fst (spread (skipWhile_next (\<lambda>v u. (p v, u)), (False, (), xs))) =
       Some (dropWhile (\<lambda>v. truthy (p v)) xs)
   \<and> map_option fst (spread (skipWhile_next (skip_pred 2), (False, 0, [VNum 1, VNum 2, VNum 3]))) =
       Some [VNum 3]"
proof -
  have drop_all: "dropWhile (\<lambda>(x, passed). truthy passed) (zip zs rs @ tl) =
      dropWhile (\<lambda>(x, passed). truthy passed) tl"
    if "list_all truthy rs" "length rs = length zs" for zs rs :: "jsval list" and tl
    using that(2,1) by (induction rs zs rule: list_induct2) simp_all
  have a: "skipWhile pred s (VArr xs) = Inr (skipWhile_next pred, (False, s, xs))"
    by (simp add: skipWhile_def)
  have c: "map_option fst (spread (skipWhile_next pred, (False, s, ps @ x # rest))) =
          Some (x # rest)"
    if ok: "list_all truthy (fst (call_each pred ps s))"
      and bad: "\<not> truthy (fst (pred x (snd (call_each pred ps s))))"
  proof -
    have "zip (ps @ x # rest) (fst (call_each pred (ps @ x # rest) s)) =
        zip ps (fst (call_each pred ps s)) @
        zip (x # rest) (fst (call_each pred (x # rest) (snd (call_each pred ps s))))"
      by (simp add: call_each_append call_each_length)
    then show ?thesis
      using bad
      by (simp add: spread_skipWhile drop_all [OF ok call_each_length] case_prod_beta
          call_each_length)
  qed
  have pure: "map fst (dropWhile (\<lambda>(x, passed). truthy passed) (zip zs (map p zs))) =
      dropWhile (\<lambda>v. truthy (p v)) zs" for zs
    by (induction zs) simp_all
  have d: "map_option fst (spread (skipWhile_next (\<lambda>v u. (p v, u)), (False, (), xs))) =
       Some (dropWhile (\<lambda>v. truthy (p v)) xs)"
    by (simp add: spread_skipWhile call_each_pure pure)
  have e: "map_option fst (spread (skipWhile_next (skip_pred 2), (False, 0, [VNum 1, VNum 2, VNum 3]))) =
       Some [VNum 3]"
    by (simp add: spread_skipWhile skip_pred_def)
  show ?thesis
    using a c d e spread_skipWhile [of pred s xs] by blast
qed

theorem skipWhile_contract_witness:
  "list_all truthy (fst (call_each (skip_pred 1) [VNum 7] 0))
   \<and> \<not> truthy (fst (skip_pred 1 (VNum 8) (snd (call_each (skip_pred 1) [VNum 7] 0))))
   \<and> map_option fst (spread (skipWhile_next (skip_pred 1), (False, 0, [VNum 7, VNum 8, VNum 9]))) =
       Some [VNum 8, VNum 9]"
proof -
  have h: "list_all truthy (fst (call_each (skip_pred 1) [VNum 7] 0))
      \<and> \<not> truthy (fst (skip_pred 1 (VNum 8) (snd (call_each (skip_pred 1) [VNum 7] 0))))"
    by (simp add: skip_pred_def)
  show ?thesis
    using h skipWhile_contract [of "skip_pred 1" 0 "[]" "[VNum 7]" "VNum 8" "[VNum 9]"]
    by simp
qed

text \<open>
  C8. Collecting \<open>filter_map(predMap, s)\<close> gives the values \<open>predMap\<close> returned on the
  elements of \<open>s\<close>, in order, that are truthy: the results, not the elements, and none of
  the falsy ones, among them \<open>0\<close>, the empty string and \<open>false\<close>.
\<close>

theorem filter_map_contract:
  "filter_map predMap s (VArr xs) = Inr (filter_map_next predMap, (s, xs))
   \<and> spread (filter_map_next predMap, (s, xs)) =
       Some (filter truthy (fst (call_each predMap xs s)),
             (filter_map_next predMap, (snd (call_each predMap xs s), [])))
   \<and> map_option fst (spread (filter_map_next (\<lambda>v u. (f v, u)), ((), xs))) =
       Some (filter truthy (map f xs))
   \<and> \<not> truthy (VNum 0) \<and> \<not> truthy (VStr []) \<and> \<not> truthy (VBool False)
   \<and> map_option fst
        (spread (filter_map_next (\<lambda>v u. (if v = VNum 2 then VStr ''haha'' else VBool False, u)),
                 ((), [VNum 1, VNum 2, VNum 3]))) = Some [VStr ''haha'']"
  by (simp add: filter_map_def spread_filter_map call_each_pure)

subsection \<open>cycle of an empty sequence\<close>

lemma cycle_next_empty: "0 \<le> i \<Longrightarrow> cycle_next ([], i) = (Some VUndefined, ([], 1))"
  by (simp add: cycle_next_def element_at_def)

lemma gen_next_cycle_empty:
  "0 \<le> i \<Longrightarrow> gen_next (cycle_next, ([], i)) = (Some VUndefined, (cycle_next, ([], 1)))"
  by (simp add: gen_next_def cycle_next_empty)

lemma cycle_empty_state:
  "((\<lambda>gen. snd (gen_next gen)) ^^ Suc n) (cycle_next, ([], 0)) = (cycle_next, ([], 1))"
  by (induction n) (simp_all add: gen_next_cycle_empty)

lemma spread_cycle_None: "spread (cycle_next, g) = None"
proof (rule ccontr)
  assume "spread (cycle_next, g) \<noteq> None"
  then obtain r where "spread (cycle_next, g) = Some r" by blast
  then have "fst (cycle_next, g) = cycle_next \<longrightarrow> False"
  proof (induction rule: spread.raw_induct [where P = "\<lambda>gen r. fst gen = cycle_next \<longrightarrow> False",
        rotated 1, consumes 1])
    case (1 sp gen r)
    show ?case
    proof
      assume body: "fst gen = cycle_next"
      obtain v g' where step: "cycle_next (snd gen) = (Some v, g')"
        by (cases "snd gen") (simp add: cycle_next_def Let_def)
      have "gen_next gen = (Some v, (cycle_next, g'))"
        using body step by (cases gen) (simp add: gen_next_def)
      with 1(2) obtain r' where "sp (cycle_next, g') = Some r'"
        by (auto simp: bind_eq_Some_conv)
      with 1(1) show False by fastforce
    qed
  qed
  then show False by simp
qed

text \<open>
  C3, as stated, fails: the first advance of \<open>cycle([])\<close> produces an element, whose
  value is \<open>undefined\<close>.
\<close>

theorem cycle_empty_counterexample:
  "cycle (VArr []) = Inr (cycle_next, ([], 0))
   \<and> gen_next (cycle_next, ([], 0)) = (Some VUndefined, (cycle_next, ([], 1)))"
  by (simp add: cycle_def collect_def gen_next_cycle_empty)

text \<open>
  C3, amended. \<open>cycle\<close> of an empty sequence raises no error and never finishes:
  every advance yields an element whose value is \<open>undefined\<close> (the array read
  \<open>item[0]\<close> outside the empty buffer), so collecting it never returns.
\<close>

theorem cycle_empty_yields_undefined:
  "cycle (VArr []) = Inr (cycle_next, ([], 0))
   \<and> (\<forall>n. gen_next (((\<lambda>gen. snd (gen_next gen)) ^^ n) (cycle_next, ([], 0))) =
            (Some VUndefined, (cycle_next, ([], 1))))
   \<and> spread (cycle_next, ([], 0)) = None"
proof -
  have "gen_next (((\<lambda>gen. snd (gen_next gen)) ^^ n) (cycle_next, ([], 0))) =
      (Some VUndefined, (cycle_next, ([], 1)))" for n
    by (cases n) (simp_all add: cycle_empty_state gen_next_cycle_empty del: funpow.simps)
  then show ?thesis
    by (simp add: cycle_def collect_def spread_cycle_None)
qed

subsection \<open>curry\<close>

lemma curry_js_enough: "n \<le> length args \<Longrightarrow> curry_js n fn args = Returned (fn args)"
  by (simp add: curry_js.ctr)

lemma curry_js_partial:
  "length args < n \<Longrightarrow> curry_js n fn args = Wrapper (\<lambda>other. curry_js n fn (args @ other))"
  by (simp add: curry_js.ctr)

lemma call_all_curry:
  "length (args @ concat cs) < n \<Longrightarrow> n \<le> length (args @ concat cs @ c) \<Longrightarrow>
     call_all (Wrapper (\<lambda>other. curry_js n fn (args @ other))) (cs @ [c]) =
       Some (Returned (fn (args @ concat cs @ c)))"
proof (induction cs arbitrary: args)
  case Nil
  then show ?case by (simp add: curry_js_enough)
next
  case (Cons d cs)
  have "length (args @ d) < n" using Cons.prems(1) by simp
  then have "curry_js n fn (args @ d) = Wrapper (\<lambda>other. curry_js n fn ((args @ d) @ other))"
    by (rule curry_js_partial)
  moreover have "call_all (Wrapper (\<lambda>other. curry_js n fn ((args @ d) @ other))) (cs @ [c]) =
       Some (Returned (fn ((args @ d) @ concat cs @ c)))"
    using Cons.prems by (intro Cons.IH) simp_all
  ultimately show ?case by simp
qed

text \<open>
  C9. A call of the curried wrapper with at least \<open>n\<close> arguments returns what \<open>fn\<close>
  returns on exactly those arguments. A call with fewer returns a wrapper which, called
  with further arguments, behaves as the first wrapper called with the prefix followed
  by the suffix; calling it again with another suffix depends on the prefix and that
  suffix only. Hence in a chain of calls \<open>fn\<close> is applied to all arguments in call
  order at the first call that brings their number to \<open>n\<close>.
\<close>

theorem curry_contract:
  "(n \<le> length args \<longrightarrow> curry_js n fn args = Returned (fn args))
   \<and> (length args < n \<longrightarrow>
        curry_js n fn args = Wrapper (\<lambda>other. curry_js n fn (args @ other))
        \<and> call (curry_js n fn args) other = Some (curry_js n fn (args @ other))
        \<and> call (curry_js n fn args) other' = Some (curry_js n fn (args @ other')))
   \<and> (length (concat cs) < n \<and> n \<le> length (concat cs @ c) \<longrightarrow>
        call_all (Wrapper (curry_js n fn)) (cs @ [c]) = Some (Returned (fn (concat cs @ c))))"
proof -
  have "call_all (Wrapper (curry_js n fn)) (cs @ [c]) = Some (Returned (fn (concat cs @ c)))"
    if "length (concat cs) < n" "n \<le> length (concat cs @ c)"
    using call_all_curry [of "[]" cs n c fn] that by simp
  then show ?thesis
    by (auto simp: curry_js_enough curry_js_partial)
qed

theorem curry_contract_witness:
  "curry_js 3 sum_list [1, 2, 3, 4 :: int] = Returned 10
   \<and> call (curry_js 3 sum_list [1, 2 :: int]) [3] = Some (Returned 6)
   \<and> call (curry_js 3 sum_list [1, 2 :: int]) [5, 6] = Some (Returned 14)
   \<and> call_all (Wrapper (curry_js 3 sum_list)) [[1], [], [2 :: int], [3]] = Some (Returned 6)"
  using curry_contract [of 3 "[1, 2, 3, 4 :: int]" sum_list "[]" "[]" "[]" "[]"]
    curry_contract [of 3 "[1, 2 :: int]" sum_list "[3]" "[5, 6]" "[[1], [], [2]]" "[3]"]
  by (simp add: curry_js_enough)

subsection \<open>The error of a call\<close>

lemma ensureIterator_cases: "ensureIterator v = Inr () \<or> ensureIterator v = Inl NotIterator"
  by (cases v) (simp_all add: ensureIterator_def isIterator_eq)

lemma raises_only_Inl [simp]: "raises_only_NotIterator (Inl NotIterator)"
  by (simp add: raises_only_NotIterator_def NotIterator_def)

lemma raises_only_Inr [simp]: "raises_only_NotIterator (Inr x)"
  by (simp add: raises_only_NotIterator_def)

lemma flatMap_next_total: "\<exists>r. flatMap_next fn g = Inr r"
proof (induction fn g rule: flatMap_next.induct)
  case (3 fn s item rest)
  obtain result s' where call: "fn item s = (result, s')" by (cases "fn item s")
  show ?case
  proof (cases "isIterator result = Inr True")
    case True
    with 3 [OF call [symmetric] True] call show ?thesis by simp
  next
    case False
    then have "isIterator result = Inr False"
      by (simp add: isIterator_eq split: jsval.splits)
    with call show ?thesis by simp
  qed
qed simp_all

lemmas guarded_defs =
  map_iter_def filter_iter_def filter_map_def all_def some_def chain_iter_def collect_def
  count_def takeWhile_iter_def take_iter_def cycle_def enumerate_iter_def eq_by_def eq_def
  find_iter_def find_map_def flatMap_def flatten_def tap_def nth_iter_def fold_iter_def
  scan_def skipWhile_def skip_def zip_iter_def

text \<open>
  C5. Every combinator that takes a sequence, called with a value that is not one in a
  sequence position, throws \<open>NotIterator\<close> from the call itself, whatever its other
  arguments are: the call returns no generator, and a consumer has not called its
  callback, whose variables are unchanged. For the combinators with two sequences this
  holds in either position, with any value in the other. No generator throws it later:
  the only generator body that tests a value, that of \<open>flatMap\<close>, always yields or
  finishes.
\<close>

theorem NotIterator_raised_at_call:
  fixes fn :: "'s fn1" and fn2 :: "'s fn2"
  assumes "isIterator v = Inr False"
  shows
  "map_iter fn s v = Inl NotIterator
   \<and> filter_iter fn s v = Inl NotIterator
   \<and> filter_map fn s v = Inl NotIterator
   \<and> all fn v s = (Inl NotIterator, s)
   \<and> some fn v s = (Inl NotIterator, s)
   \<and> chain_iter v w = Inl NotIterator
   \<and> chain_iter w v = Inl NotIterator
   \<and> collect v = Inl NotIterator
   \<and> count v = Inl NotIterator
   \<and> takeWhile_iter fn s v = Inl NotIterator
   \<and> take_iter n v = Inl NotIterator
   \<and> cycle v = Inl NotIterator
   \<and> enumerate_iter v = Inl NotIterator
   \<and> eq_by fn2 v w s = (Inl NotIterator, s)
   \<and> eq_by fn2 w v s = (Inl NotIterator, s)
   \<and> eq strict_equals v w = Inl NotIterator
   \<and> eq strict_equals w v = Inl NotIterator
   \<and> find_iter fn v s = (Inl NotIterator, s)
   \<and> find_map fn v s = (Inl NotIterator, s)
   \<and> flatMap fn s v = Inl NotIterator
   \<and> flatten v = Inl NotIterator
   \<and> tap fn s v = Inl NotIterator
   \<and> nth_iter i v = Inl NotIterator
   \<and> fold_iter fn2 start v s = (Inl NotIterator, s)
   \<and> scan fn2 start s v = Inl NotIterator
   \<and> skipWhile fn s v = Inl NotIterator
   \<and> skip n v = Inl NotIterator
   \<and> zip_iter v w = Inl NotIterator
   \<and> zip_iter w v = Inl NotIterator
   \<and> (\<exists>r. flatMap_next fn g = Inr r)"
proof -
  note bad = ensureIterator_not [OF assms]
  have one:
    "map_iter fn s v = Inl NotIterator" "filter_iter fn s v = Inl NotIterator"
    "filter_map fn s v = Inl NotIterator" "all fn v s = (Inl NotIterator, s)"
    "some fn v s = (Inl NotIterator, s)" "collect v = Inl NotIterator"
    "count v = Inl NotIterator" "takeWhile_iter fn s v = Inl NotIterator"
    "take_iter n v = Inl NotIterator" "cycle v = Inl NotIterator"
    "enumerate_iter v = Inl NotIterator" "find_iter fn v s = (Inl NotIterator, s)"
    "find_map fn v s = (Inl NotIterator, s)" "flatMap fn s v = Inl NotIterator"
    "flatten v = Inl NotIterator" "tap fn s v = Inl NotIterator"
    "nth_iter i v = Inl NotIterator" "fold_iter fn2 start v s = (Inl NotIterator, s)"
    "scan fn2 start s v = Inl NotIterator" "skipWhile fn s v = Inl NotIterator"
    "skip n v = Inl NotIterator"
    by (simp_all add: guarded_defs bad)
  have first:
    "chain_iter v w = Inl NotIterator" "eq_by fn2 v w s = (Inl NotIterator, s)"
    "eq strict_equals v w = Inl NotIterator" "zip_iter v w = Inl NotIterator"
    by (simp_all add: guarded_defs bad)
  have second:
    "chain_iter w v = Inl NotIterator" "eq_by fn2 w v s = (Inl NotIterator, s)"
    "eq strict_equals w v = Inl NotIterator" "zip_iter w v = Inl NotIterator"
    using ensureIterator_cases [of w] by (auto simp: guarded_defs bad)
  show ?thesis
    using one first second flatMap_next_total [of fn g] by blast
qed

theorem NotIterator_raised_at_call_witness:
  "isIterator (VNum 1) = Inr False
   \<and> map_iter ident () (VNum 1) = Inl NotIterator
   \<and> all ident (VNum 1) () = (Inl NotIterator, ())
   \<and> eq_by counting_equal (VArr [VNum 1]) (VNum 1) 0 = (Inl NotIterator, 0)
   \<and> zip_iter (VArr [VNum 1]) (VNum 1) = Inl NotIterator
   \<and> take_iter 3 (VNum 1) = Inl NotIterator"
proof -
  have h: "isIterator (VNum 1) = Inr False"
    by (simp add: isIterator_eq)
  show ?thesis
    using h NotIterator_raised_at_call [OF h, of ident "()" "VArr [VNum 1]" 3]
      NotIterator_raised_at_call [OF h, of _ 0 "VArr [VNum 1]" _ counting_equal]
    by simp
qed

text \<open>
  C4, as stated, fails: the message of the error \<open>map\<close> throws on the number 1 is not
  \<open>Value is not a sequence\<close>.
\<close>

theorem NotIterator_message_counterexample:
  "map_iter ident () (VNum 1) = Inl NotIterator
   \<and> err_message NotIterator = ''Value is not an iterator''
   \<and> err_message NotIterator \<noteq> ''Value is not a sequence''"
  by (simp add: map_iter_def ensureIterator_def isIterator_eq NotIterator_def)

text \<open>
  C4, amended. The guard throws \<open>NotIterator\<close> on a value that is not a sequence, and
  whatever a combinator throws when it is called is an error of class \<open>NotIterator\<close>
  with the code 1 and the message \<open>Value is not an iterator\<close>.
\<close>

theorem NotIterator_fields:
  fixes fn :: "'s fn1" and fn2 :: "'s fn2"
  shows
  "err_class NotIterator = ''NotIterator'' \<and> err_code NotIterator = Some 1
   \<and> err_message NotIterator = ''Value is not an iterator''
   \<and> (isIterator v = Inr False \<longrightarrow> ensureIterator v = Inl NotIterator)
   \<and> raises_only_NotIterator (ensureIterator v)
   \<and> raises_only_NotIterator (map_iter fn s v)
   \<and> raises_only_NotIterator (filter_iter fn s v)
   \<and> raises_only_NotIterator (filter_map fn s v)
   \<and> raises_only_NotIterator (fst (all fn v s))
   \<and> raises_only_NotIterator (fst (some fn v s))
   \<and> raises_only_NotIterator (chain_iter v w)
   \<and> raises_only_NotIterator (collect v)
   \<and> raises_only_NotIterator (count v)
   \<and> raises_only_NotIterator (takeWhile_iter fn s v)
   \<and> raises_only_NotIterator (take_iter n v)
   \<and> raises_only_NotIterator (cycle v)
   \<and> raises_only_NotIterator (enumerate_iter v)
   \<and> raises_only_NotIterator (fst (eq_by fn2 v w s))
   \<and> raises_only_NotIterator (eq strict_equals v w)
   \<and> raises_only_NotIterator (fst (find_iter fn v s))
   \<and> raises_only_NotIterator (fst (find_map fn v s))
   \<and> raises_only_NotIterator (flatMap fn s v)
   \<and> raises_only_NotIterator (flatten v)
   \<and> raises_only_NotIterator (tap fn s v)
   \<and> raises_only_NotIterator (nth_iter i v)
   \<and> raises_only_NotIterator (fst (fold_iter fn2 start v s))
   \<and> raises_only_NotIterator (scan fn2 start s v)
   \<and> raises_only_NotIterator (skipWhile fn s v)
   \<and> raises_only_NotIterator (skip n v)
   \<and> raises_only_NotIterator (zip_iter v w)"
proof -
  have fields: "err_class NotIterator = ''NotIterator'' \<and> err_code NotIterator = Some 1
      \<and> err_message NotIterator = ''Value is not an iterator''"
    by (simp add: NotIterator_def)
  have one:
    "raises_only_NotIterator (ensureIterator v)"
    "raises_only_NotIterator (map_iter fn s v)" "raises_only_NotIterator (filter_iter fn s v)"
    "raises_only_NotIterator (filter_map fn s v)" "raises_only_NotIterator (fst (all fn v s))"
    "raises_only_NotIterator (fst (some fn v s))" "raises_only_NotIterator (collect v)"
    "raises_only_NotIterator (count v)" "raises_only_NotIterator (takeWhile_iter fn s v)"
    "raises_only_NotIterator (take_iter n v)" "raises_only_NotIterator (cycle v)"
    "raises_only_NotIterator (enumerate_iter v)"
    "raises_only_NotIterator (fst (find_iter fn v s))"
    "raises_only_NotIterator (fst (find_map fn v s))"
    "raises_only_NotIterator (flatMap fn s v)" "raises_only_NotIterator (flatten v)"
    "raises_only_NotIterator (tap fn s v)" "raises_only_NotIterator (nth_iter i v)"
    "raises_only_NotIterator (fst (fold_iter fn2 start v s))"
    "raises_only_NotIterator (scan fn2 start s v)" "raises_only_NotIterator (skipWhile fn s v)"
    "raises_only_NotIterator (skip n v)"
    using ensureIterator_cases [of v]
    by (auto simp: guarded_defs case_prod_beta)
  have two:
    "raises_only_NotIterator (chain_iter v w)"
    "raises_only_NotIterator (fst (eq_by fn2 v w s))"
    "raises_only_NotIterator (eq strict_equals v w)"
    "raises_only_NotIterator (zip_iter v w)"
    using ensureIterator_cases [of v] ensureIterator_cases [of w]
    by (auto simp: guarded_defs case_prod_beta)
  show ?thesis
    using fields one two ensureIterator_not [of v] by blast
qed

theorem NotIterator_fields_witness:
  "isIterator (VStr ''abc'') = Inr False
   \<and> ensureIterator (VStr ''abc'') = Inl NotIterator
   \<and> raises_only_NotIterator (collect (VStr ''abc''))
   \<and> collect (VStr ''abc'') = Inl NotIterator"
proof -
  have h: "isIterator (VStr ''abc'') = Inr False"
    by (simp add: isIterator_eq)
  show ?thesis
    using h NotIterator_fields [of "VStr ''abc''" ident "()"]
    by (simp add: collect_def)
qed

end
